theory Spec2Isabelle
  imports Complex_Main "HOL-Library.Word"
begin

section \<open>Python and NumPy values\<close>

text \<open>
  The notebooks compute with NumPy \<open>float64\<close> values. A finite float is modelled by the
  real number it stands for (rounding and overflow of finite arithmetic are not
  modelled); the three special values of IEEE arithmetic are kept, because NumPy
  division by zero does not raise: it yields an infinity or a NaN (and a warning).
  The sign of a zero is not modelled: \<open>Fin 0\<close> behaves as \<open>+0.0\<close>.
\<close>

datatype npfloat = Fin real | PInf | NInf | NaN

datatype py_error = ZeroDivisionError | OverflowError | ValueError


fun fneg :: "npfloat \<Rightarrow> npfloat" where
  "fneg (Fin a) = Fin (- a)"
| "fneg PInf = NInf"
| "fneg NInf = PInf"
| "fneg NaN = NaN"

fun fadd :: "npfloat \<Rightarrow> npfloat \<Rightarrow> npfloat" where
  "fadd (Fin a) (Fin b) = Fin (a + b)"
| "fadd NaN y = NaN"
| "fadd x NaN = NaN"
| "fadd PInf NInf = NaN"
| "fadd NInf PInf = NaN"
| "fadd PInf y = PInf"
| "fadd x PInf = PInf"
| "fadd NInf y = NInf"
| "fadd x NInf = NInf"

definition fsub :: "npfloat \<Rightarrow> npfloat \<Rightarrow> npfloat" where
  "fsub x y = fadd x (fneg y)"

fun fmul :: "npfloat \<Rightarrow> npfloat \<Rightarrow> npfloat" where
  "fmul (Fin a) (Fin b) = Fin (a * b)"
| "fmul NaN y = NaN"
| "fmul x NaN = NaN"
| "fmul PInf (Fin b) = (if b = 0 then NaN else if 0 < b then PInf else NInf)"
| "fmul NInf (Fin b) = (if b = 0 then NaN else if 0 < b then NInf else PInf)"
| "fmul (Fin a) PInf = (if a = 0 then NaN else if 0 < a then PInf else NInf)"
| "fmul (Fin a) NInf = (if a = 0 then NaN else if 0 < a then NInf else PInf)"
| "fmul PInf PInf = PInf"
| "fmul NInf NInf = PInf"
| "fmul PInf NInf = NInf"
| "fmul NInf PInf = NInf"

fun fdiv :: "npfloat \<Rightarrow> npfloat \<Rightarrow> npfloat" where
  "fdiv (Fin a) (Fin b) =
     (if b = 0 then (if a = 0 then NaN else if 0 < a then PInf else NInf)
      else Fin (a / b))"
| "fdiv NaN y = NaN"
| "fdiv x NaN = NaN"
| "fdiv (Fin a) PInf = Fin 0"
| "fdiv (Fin a) NInf = Fin 0"
| "fdiv PInf (Fin b) = (if 0 \<le> b then PInf else NInf)"
| "fdiv NInf (Fin b) = (if 0 \<le> b then NInf else PInf)"
| "fdiv PInf y = NaN"
| "fdiv NInf y = NaN"

fun fsqrt :: "npfloat \<Rightarrow> npfloat" where
  "fsqrt (Fin a) = (if a < 0 then NaN else Fin (sqrt a))"
| "fsqrt PInf = PInf"
| "fsqrt NInf = NaN"
| "fsqrt NaN = NaN"

text \<open>The comparison \<open>x < y\<close>: false as soon as one side is a NaN.\<close>

fun flt :: "npfloat \<Rightarrow> npfloat \<Rightarrow> bool" where
  "flt (Fin a) (Fin b) = (a < b)"
| "flt NaN y = False"
| "flt x NaN = False"
| "flt x NInf = False"
| "flt PInf y = False"
| "flt NInf y = True"
| "flt x PInf = True"

text \<open>\<open>np.sum\<close>, \<open>np.mean\<close>, \<open>ndarray.var(ddof)\<close> and \<open>np.std\<close> on a one-dimensional array.
  The mean of an empty array is \<open>0/0\<close>, a NaN; the variance divides by
  \<open>max(n - ddof, 0)\<close>.\<close>

definition np_sum :: "npfloat list \<Rightarrow> npfloat" where
  "np_sum xs = foldl fadd (Fin 0) xs"

definition np_mean :: "npfloat list \<Rightarrow> npfloat" where
  "np_mean xs = fdiv (np_sum xs) (Fin (real (length xs)))"

definition np_var :: "nat \<Rightarrow> npfloat list \<Rightarrow> npfloat" where
  "np_var ddof xs =
     (let arrmean = np_mean xs;
          x = map (\<lambda>a. fsub a arrmean) xs;
          x2 = map (\<lambda>d. fmul d d) x
      in fdiv (np_sum x2) (Fin (real (length xs - ddof))))"


text \<open>\<open>a.reshape(n, L)\<close> of a one-dimensional array: \<open>n\<close> rows of \<open>L\<close> consecutive
  elements; NumPy raises \<open>ValueError\<close> when the sizes do not match.\<close>

fun rows_of :: "nat \<Rightarrow> nat \<Rightarrow> 'a list \<Rightarrow> 'a list list" where
  "rows_of 0 L xs = []"
| "rows_of (Suc n) L xs = take L xs # rows_of n L (drop L xs)"

definition np_reshape :: "nat \<Rightarrow> nat \<Rightarrow> 'a list \<Rightarrow> py_error + 'a list list" where
  "np_reshape n L xs = (if length xs \<noteq> n * L then Inl ValueError else Inr (rows_of n L xs))"

text \<open>A NumPy array of one axis, as \<open>np.array\<close> gives it: of dtype \<open>int64\<close> when it is
  made from Python integers or is an integer array already (\<open>np.full(D, -100)\<close>), of
  dtype \<open>float64\<close> otherwise (\<open>np.zeros(D)\<close>). Arithmetic inside \<open>int64\<close> wraps around.
  Reading an element gives a scalar, taken as a real number here; storing a float into
  an \<open>int64\<close> array truncates it towards zero (a value outside the range of \<open>int64\<close> is
  stored as the least \<open>int64\<close>, as on the usual platforms).\<close>

datatype ndarray = Int64 "64 word list" | Float64 "real list"

definition trunc_real :: "real \<Rightarrow> int" where
  "trunc_real v = (if 0 \<le> v then \<lfloor>v\<rfloor> else \<lceil>v\<rceil>)"

definition cast_int64 :: "real \<Rightarrow> 64 word" where
  "cast_int64 v =
     (let k = trunc_real v
      in if - (2 ^ 63) \<le> k \<and> k < 2 ^ 63 then word_of_int k else word_of_int (- (2 ^ 63)))"

fun nd_length :: "ndarray \<Rightarrow> nat" where
  "nd_length (Int64 ws) = length ws"
| "nd_length (Float64 xs) = length xs"

fun nd_get :: "ndarray \<Rightarrow> nat \<Rightarrow> real" where
  "nd_get (Int64 ws) j = real_of_int (sint (ws ! j))"
| "nd_get (Float64 xs) j = xs ! j"

fun nd_set :: "ndarray \<Rightarrow> nat \<Rightarrow> real \<Rightarrow> ndarray" where
  "nd_set (Int64 ws) j v = Int64 (ws[j := cast_int64 v])"
| "nd_set (Float64 xs) j v = Float64 (xs[j := v])"





text \<open>Python list slicing. \<open>xs[::step]\<close> raises \<open>ValueError\<close> for a zero step, walks
  the list from its first element for a positive step and from its last element,
  backwards, for a negative one. \<open>stride_from t c xs\<close> skips \<open>c\<close> elements, keeps one, and
  goes on keeping every \<open>t\<close>-th. \<open>xs[start:]\<close> counts a negative start from the end.\<close>

fun stride_from :: "nat \<Rightarrow> nat \<Rightarrow> 'a list \<Rightarrow> 'a list" where
  "stride_from t c [] = []"
| "stride_from t c (x # xs) =
     (if c = 0 then x # stride_from t (t - 1) xs else stride_from t (c - 1) xs)"

definition py_slice_step :: "'a list \<Rightarrow> int \<Rightarrow> py_error + 'a list" where
  "py_slice_step xs step =
     (if step = 0 then Inl ValueError
      else if 0 < step then Inr (stride_from (nat step) 0 xs)
      else Inr (stride_from (nat (- step)) 0 (rev xs)))"

definition py_slice_from :: "'a list \<Rightarrow> int \<Rightarrow> 'a list" where
  "py_slice_from xs start =
     (if 0 \<le> start then drop (nat start) xs
      else drop (nat (int (length xs) + start)) xs)"

text \<open>The random generator. Its state is the position in a stream \<open>draws\<close> of standard
  uniform variates in \<open>[0, 1)\<close>; \<open>uniform(low, high)\<close> scales one variate, as NumPy does.\<close>

definition rng_uniform :: "real \<Rightarrow> real \<Rightarrow> real \<Rightarrow> real" where
  "rng_uniform low high u = low + (high - low) * u"

section \<open>Blocking variance\<close>

text \<open>\<open>int(np.log2(q))\<close>: \<open>np.log2(0)\<close> is \<open>-inf\<close>, which \<open>int\<close> refuses with
  \<open>OverflowError\<close>; the logarithm of a negative number is a NaN, which \<open>int\<close> refuses with
  \<open>ValueError\<close>. For \<open>q \<ge> 1\<close> the logarithm is taken exactly.\<close>

fun log2_floor :: "nat \<Rightarrow> nat" where
  "log2_floor q = (if q < 2 then 0 else Suc (log2_floor (q div 2)))"

declare log2_floor.simps [simp del]

definition py_int_log2 :: "int \<Rightarrow> py_error + nat" where
  "py_int_log2 q =
     (if q = 0 then Inl OverflowError
      else if q < 0 then Inl ValueError
      else Inr (log2_floor (nat q)))"

fun bv_loop :: "npfloat list \<Rightarrow> int \<Rightarrow> nat list \<Rightarrow> npfloat list \<Rightarrow> npfloat list
    \<Rightarrow> py_error + (npfloat list \<times> npfloat list)" where
  "bv_loop series min_blocks [] var_mean err_var = Inr (var_mean, err_var)"
| "bv_loop series min_blocks (L # Ls) var_mean err_var =
     (let n_blocks = length series div L in
      if int n_blocks < min_blocks then Inr (var_mean, err_var)
      else
        case np_reshape n_blocks L (take (n_blocks * L) series) of
          Inl e \<Rightarrow> Inl e
        | Inr rows \<Rightarrow>
            (let blocks = map np_mean rows;
                 s2 = np_var 1 blocks;
                 v_mean = fdiv s2 (Fin (real n_blocks))
             in bv_loop series min_blocks Ls (var_mean @ [v_mean])
                  (err_var @ [fmul v_mean (fsqrt (fdiv (Fin 2) (Fin (real n_blocks - 1))))])))"

definition blocking_variance :: "npfloat list \<Rightarrow> int
    \<Rightarrow> py_error + (nat list \<times> npfloat list \<times> npfloat list)" where
  "blocking_variance series min_blocks =
     (let N = length series in
      if min_blocks = 0 then Inl ZeroDivisionError
      else
        case py_int_log2 (int N div min_blocks) of
          Inl e \<Rightarrow> Inl e
        | Inr max_power \<Rightarrow>
            (let bin_sizes = map (\<lambda>k. 2 ^ k) [0..<max_power + 1] in
             case bv_loop series min_blocks bin_sizes [] [] of
               Inl e \<Rightarrow> Inl e
             | Inr (var_mean, err_var) \<Rightarrow>
                 Inr (take (length var_mean) bin_sizes, var_mean, err_var)))"

text \<open>The value and the error bar that one pass of the loop of \<open>blocking_variance\<close>
  appends for the block length \<open>L\<close>.\<close>

definition block_estimate :: "npfloat list \<Rightarrow> nat \<Rightarrow> npfloat" where
  "block_estimate series L =
     (let n_blocks = length series div L;
          blocks = map np_mean (rows_of n_blocks L (take (n_blocks * L) series))
      in fdiv (np_var 1 blocks) (Fin (real n_blocks)))"

definition block_error :: "npfloat list \<Rightarrow> nat \<Rightarrow> npfloat" where
  "block_error series L =
     fmul (block_estimate series L)
       (fsqrt (fdiv (Fin 2) (Fin (real (length series div L) - 1))))"

section \<open>Plain Monte Carlo integration\<close>



section \<open>Gibbs sampler with accept-reject step\<close>

text \<open>The state \<open>x\<close> is the array \<open>np.array(x0)\<close>, of the dtype that \<open>x0\<close> gives it. The
  densities return NumPy scalars, as those of the notebooks do, so that their quotient
  follows the rules of \<open>fdiv\<close> and raises nothing. One pass of the inner loop body for
  coordinate \<open>j\<close> draws two variates, the first for the proposal, the second for the
  decision; both assignments store into an array of the dtype of \<open>x\<close>.\<close>

definition gibbs_coord :: "(nat \<Rightarrow> real) \<Rightarrow> real \<Rightarrow> (ndarray \<Rightarrow> npfloat) \<Rightarrow> nat
    \<Rightarrow> ndarray \<times> nat \<Rightarrow> ndarray \<times> nat" where
  "gibbs_coord draws step_size target_pdf j s =
     (let x = fst s; pos = snd s;
          x_prop = nd_set x j (nd_get x j + rng_uniform (- step_size) step_size (draws pos));
          acc_ratio = fdiv (target_pdf x_prop) (target_pdf x)
      in if flt (Fin (draws (pos + 1))) acc_ratio
         then (nd_set x j (nd_get x_prop j), pos + 2)
         else (x, pos + 2))"

text \<open>The loop over \<open>j\<close> in \<open>range(d)\<close>, and the loop over the \<open>N\<close> sweeps, which appends
  a copy of the state after each sweep. The index \<open>j\<close> stays below the length of \<open>x\<close>,
  which is \<open>d\<close> throughout.\<close>

definition gibbs_sweep :: "(nat \<Rightarrow> real) \<Rightarrow> real \<Rightarrow> (ndarray \<Rightarrow> npfloat) \<Rightarrow> nat
    \<Rightarrow> ndarray \<times> nat \<Rightarrow> ndarray \<times> nat" where
  "gibbs_sweep draws step_size target_pdf d s =
     foldl (\<lambda>s j. gibbs_coord draws step_size target_pdf j s) s [0..<d]"

fun gibbs_loop :: "(nat \<Rightarrow> real) \<Rightarrow> real \<Rightarrow> (ndarray \<Rightarrow> npfloat) \<Rightarrow> nat \<Rightarrow> nat
    \<Rightarrow> ndarray \<times> nat \<Rightarrow> ndarray list \<Rightarrow> ndarray list" where
  "gibbs_loop draws step_size target_pdf d 0 s samples = samples"
| "gibbs_loop draws step_size target_pdf d (Suc n) s samples =
     (let s' = gibbs_sweep draws step_size target_pdf d s
      in gibbs_loop draws step_size target_pdf d n s' (samples @ [fst s']))"

text \<open>The list \<open>samples\<close> as it stands when the sweeps are over, before thinning.\<close>

definition gibbs_raw :: "(nat \<Rightarrow> real) \<Rightarrow> ndarray \<Rightarrow> int \<Rightarrow> real
    \<Rightarrow> (ndarray \<Rightarrow> npfloat) \<Rightarrow> ndarray list" where
  "gibbs_raw draws x0 N step_size target_pdf =
     (let d = nd_length x0
      in gibbs_loop draws step_size target_pdf d (nat N) (x0, 0) [])"

definition gibbs_accept_reject :: "(nat \<Rightarrow> real) \<Rightarrow> ndarray \<Rightarrow> int \<Rightarrow> int \<Rightarrow> int \<Rightarrow> real
    \<Rightarrow> (ndarray \<Rightarrow> npfloat) \<Rightarrow> py_error + ndarray list" where
  "gibbs_accept_reject draws x0 thinning burnin N step_size target_pdf =
     (let samples = gibbs_raw draws x0 N step_size target_pdf in
      case py_slice_step samples thinning of
        Inl e \<Rightarrow> Inl e
      | Inr samples' \<Rightarrow> Inr (py_slice_from samples' burnin))"

section \<open>Importance sampling\<close>

text \<open>The integrand and the density are applied to the rows of the chain, one by one,
  whatever the rows are; both return NumPy values.\<close>

definition importance_integration :: "('a \<Rightarrow> npfloat) \<Rightarrow> ('a \<Rightarrow> npfloat)
    \<Rightarrow> 'a list \<Rightarrow> npfloat" where
  "importance_integration f target_pdf m_chain =
     (let weights = map (\<lambda>x. fdiv (f x) (target_pdf x)) m_chain;
          estimate = np_mean weights
      in estimate)"

section \<open>The specification's formulations\<close>

text \<open>Thinning as the specification words it: the states whose recording index is a
  multiple of the thinning interval.\<close>

definition keep_every :: "nat \<Rightarrow> 'a list \<Rightarrow> 'a list" where
  "keep_every t xs = map (\<lambda>i. xs ! i) (filter (\<lambda>i. i mod t = 0) [0..<length xs])"

text \<open>The blocking estimate as the specification words it, on real numbers: the means of
  the \<open>N div L\<close> consecutive blocks of length \<open>L\<close> (block \<open>i\<close> holds the elements of index
  \<open>i * L, \<dots>, i * L + L - 1\<close>), and the unbiased sample variance, with denominator
  \<open>n - 1\<close>.\<close>

definition block_means :: "real list \<Rightarrow> nat \<Rightarrow> real list" where
  "block_means xs L =
     map (\<lambda>i. (\<Sum>j\<leftarrow>[0..<L]. xs ! (i * L + j)) / real L) [0..<length xs div L]"

definition sample_variance :: "real list \<Rightarrow> real" where
  "sample_variance ms =
     (\<Sum>m\<leftarrow>ms. (m - sum_list ms / real (length ms))\<^sup>2) / (real (length ms) - 1)"

section \<open>Sample inputs\<close>

text \<open>A stream of variates alternating between \<open>3/4\<close> and \<open>1/4\<close>; a constant density, a
  density that is zero everywhere, one that vanishes exactly where the first coordinate
  is zero, and the density \<open>4 / (1 + x\<^sup>2)\<close> of the first coordinate; two integrands.\<close>

definition example_draws :: "nat \<Rightarrow> real" where
  "example_draws n = (if even n then 3 / 4 else 1 / 4)"

definition flat_density :: "ndarray \<Rightarrow> npfloat" where
  "flat_density x = Fin 1"



definition cauchy_density :: "ndarray \<Rightarrow> npfloat" where
  "cauchy_density x = Fin (4 / (1 + (nd_get x 0)\<^sup>2))"



section \<open>List slicing\<close>

lemma stride_len_arith:
  fixes n t :: nat
  assumes "0 < t"
  shows "Suc ((n - (t - 1) + t - 1) div t) = (Suc n + t - 1) div t"
proof (cases "t - 1 \<le> n")
  case True
  have a: "n - (t - 1) + t - 1 = n" using True assms by auto
  have b: "Suc n + t - 1 = n + t" by simp
  have "Suc (n div t) = (n + t) div t" using assms by simp
  then show ?thesis unfolding a b .
next
  case False
  then have a: "n - (t - 1) + t - 1 = t - 1" by auto
  have b: "Suc n + t - 1 = n + t" by simp
  have c: "(t - 1) div t = 0" using assms by simp
  have "n + t = t + n" "n < t" using False by auto
  then have d: "(n + t) div t = 1" by simp
  show ?thesis unfolding a b c d by simp
qed

lemma stride_from_length:
  "0 < t \<Longrightarrow> length (stride_from t c xs) = (length xs - c + t - 1) div t"
proof (induction xs arbitrary: c)
  case Nil
  then show ?case by simp
next
  case (Cons x xs)
  show ?case
  proof (cases "c = 0")
    case True
    have "length (stride_from t c (x # xs)) = Suc (length (stride_from t (t - 1) xs))"
      using True by simp
    also have "\<dots> = Suc ((length xs - (t - 1) + t - 1) div t)"
      using Cons.IH [OF Cons.prems] by simp
    also have "\<dots> = (Suc (length xs) + t - 1) div t"
      using stride_len_arith [OF Cons.prems] .
    finally show ?thesis using True by simp
  next
    case False
    have a: "length (x # xs) - c = length xs - (c - 1)" using False by simp
    have "length (stride_from t c (x # xs)) = length (stride_from t (c - 1) xs)"
      using False by simp
    also have "\<dots> = (length xs - (c - 1) + t - 1) div t"
      using Cons.IH [OF Cons.prems] .
    finally show ?thesis unfolding a .
  qed
qed

lemma stride_from_nth:
  "0 < t \<Longrightarrow> k < length (stride_from t c xs) \<Longrightarrow> stride_from t c xs ! k = xs ! (c + k * t)"
proof (induction xs arbitrary: c k)
  case Nil
  then show ?case by simp
next
  case (Cons x xs)
  show ?case
  proof (cases "c = 0")
    case True
    have unf: "stride_from t c (x # xs) = x # stride_from t (t - 1) xs"
      by (simp add: True)
    show ?thesis
    proof (cases k)
      case 0
      show ?thesis unfolding unf 0 True by simp
    next
      case (Suc k')
      have "k' < length (stride_from t (t - 1) xs)"
        using Cons.prems(2) unfolding unf Suc by simp
      then have ih: "stride_from t (t - 1) xs ! k' = xs ! (t - 1 + k' * t)"
        by (rule Cons.IH [OF Cons.prems(1)])
      have ar: "c + Suc k' * t = Suc (t - 1 + k' * t)"
        unfolding True using Cons.prems(1) by simp
      have "(x # stride_from t (t - 1) xs) ! Suc k' = (x # xs) ! Suc (t - 1 + k' * t)"
        using ih by simp
      then show ?thesis unfolding unf Suc ar .
    qed
  next
    case False
    have unf: "stride_from t c (x # xs) = stride_from t (c - 1) xs"
      by (simp add: False)
    have "k < length (stride_from t (c - 1) xs)"
      using Cons.prems(2) unfolding unf .
    then have ih: "stride_from t (c - 1) xs ! k = xs ! (c - 1 + k * t)"
      by (rule Cons.IH [OF Cons.prems(1)])
    have ar: "c + k * t = Suc (c - 1 + k * t)" using False by simp
    have "stride_from t (c - 1) xs ! k = (x # xs) ! Suc (c - 1 + k * t)"
      using ih by simp
    then show ?thesis unfolding unf ar .
  qed
qed

lemma map_nth_filter_Cons:
  "map (\<lambda>i. (x # xs) ! i) (filter P [0..<Suc (length xs)])
     = (if P 0 then [x] else []) @ map (\<lambda>i. xs ! i) (filter (\<lambda>i. P (Suc i)) [0..<length xs])"
proof -
  have "[0..<Suc (length xs)] = 0 # [Suc 0..<Suc (length xs)]"
    by (metis upt_conv_Cons zero_less_Suc)
  also have "\<dots> = 0 # map Suc [0..<length xs]"
    by (metis map_Suc_upt)
  finally have up: "[0..<Suc (length xs)] = 0 # map Suc [0..<length xs]" .
  show ?thesis unfolding up by (simp add: filter_map comp_def)
qed

lemma stride_from_filter:
  "0 < t \<Longrightarrow> stride_from t c xs
     = map (\<lambda>i. xs ! i) (filter (\<lambda>i. c \<le> i \<and> (i - c) mod t = 0) [0..<length xs])"
proof (induction xs arbitrary: c)
  case Nil
  then show ?case by simp
next
  case (Cons x xs)
  let ?P = "\<lambda>i. c \<le> i \<and> (i - c) mod t = 0"
  have split: "map (\<lambda>i. (x # xs) ! i) (filter ?P [0..<length (x # xs)])
     = (if ?P 0 then [x] else []) @ map (\<lambda>i. xs ! i) (filter (\<lambda>i. ?P (Suc i)) [0..<length xs])"
    using map_nth_filter_Cons [of x xs ?P] by simp
  show ?case
  proof (cases "c = 0")
    case True
    have eq: "(\<lambda>i. ?P (Suc i)) = (\<lambda>i. t - 1 \<le> i \<and> (i - (t - 1)) mod t = 0)"
    proof
      fix i
      show "?P (Suc i) = (t - 1 \<le> i \<and> (i - (t - 1)) mod t = 0)"
      proof (cases "t - 1 \<le> i")
        case True
        then have "Suc i = (i - (t - 1)) + t" using Cons.prems by simp
        then have "Suc i mod t = (i - (t - 1)) mod t" by (metis mod_add_self2)
        then show ?thesis using True \<open>c = 0\<close> by simp
      next
        case False
        then have "Suc i < t" by simp
        then show ?thesis using False \<open>c = 0\<close> by simp
      qed
    qed
    have "stride_from t c (x # xs) = x # stride_from t (t - 1) xs" using True by simp
    also have "\<dots> = x # map (\<lambda>i. xs ! i) (filter (\<lambda>i. t - 1 \<le> i \<and> (i - (t - 1)) mod t = 0) [0..<length xs])"
      using Cons.IH [OF Cons.prems, of "t - 1"] by simp
    also have "\<dots> = map (\<lambda>i. (x # xs) ! i) (filter ?P [0..<length (x # xs)])"
      unfolding split eq using True by simp
    finally show ?thesis .
  next
    case False
    have eq: "(\<lambda>i. ?P (Suc i)) = (\<lambda>i. c - 1 \<le> i \<and> (i - (c - 1)) mod t = 0)"
    proof
      fix i
      have a: "Suc i - c = i - (c - 1)" using False by simp
      have b: "(c \<le> Suc i) = (c - 1 \<le> i)" using False by auto
      show "?P (Suc i) = (c - 1 \<le> i \<and> (i - (c - 1)) mod t = 0)"
        by (simp only: a b)
    qed
    have "stride_from t c (x # xs) = stride_from t (c - 1) xs" using False by simp
    also have "\<dots> = map (\<lambda>i. xs ! i) (filter (\<lambda>i. c - 1 \<le> i \<and> (i - (c - 1)) mod t = 0) [0..<length xs])"
      using Cons.IH [OF Cons.prems, of "c - 1"] by simp
    also have "\<dots> = map (\<lambda>i. (x # xs) ! i) (filter ?P [0..<length (x # xs)])"
      unfolding split eq using False by simp
    finally show ?thesis .
  qed
qed

lemma stride_keep_every: "0 < t \<Longrightarrow> stride_from t 0 xs = keep_every t xs"
  using stride_from_filter [of t 0 xs] by (simp add: keep_every_def)

lemma gibbs_loop_length:
  "length (gibbs_loop draws h p d n s samples) = length samples + n"
  by (induction n arbitrary: s samples) (simp_all add: Let_def)

lemma gibbs_raw_length: "length (gibbs_raw draws x0 N h p) = nat N"
  by (simp add: gibbs_raw_def gibbs_loop_length)

section \<open>Thinning and burn-in of the sampled chain\<close>

lemma ceiling_div_nat:
  fixes N t :: int
  assumes "0 \<le> N" "1 \<le> t"
  shows "\<lceil>real_of_int N / real_of_int t\<rceil> = int ((nat N + nat t - 1) div nat t)"
proof -
  define q where "q = (N + t - 1) div t"
  define r where "r = (N + t - 1) mod t"
  have dm: "N + t - 1 = q * t + r" and r: "0 \<le> r" "r < t"
    using assms by (simp_all add: q_def r_def)
  have up: "N \<le> q * t" using dm r by linarith
  have lo: "(q - 1) * t < N"
  proof -
    have "(q - 1) * t = q * t - t" by (simp add: algebra_simps)
    then show ?thesis using dm r by linarith
  qed
  have tpos: "0 < real_of_int t" using assms by simp
  have "real_of_int N \<le> real_of_int q * real_of_int t"
    using up by (metis of_int_le_iff of_int_mult)
  then have a: "real_of_int N / real_of_int t \<le> real_of_int q"
    using tpos by (simp add: pos_divide_le_eq)
  have "real_of_int (q - 1) * real_of_int t < real_of_int N"
    using lo by (metis of_int_less_iff of_int_mult)
  then have b: "real_of_int q - 1 < real_of_int N / real_of_int t"
    using tpos by (simp add: pos_less_divide_eq)
  have c: "\<lceil>real_of_int N / real_of_int t\<rceil> = q"
    by (rule ceiling_unique [OF b a])
  have "int ((nat N + nat t - 1) div nat t) = (int (nat N + nat t - 1)) div int (nat t)"
    by (simp add: zdiv_int)
  also have "int (nat N + nat t - 1) = N + t - 1" using assms by auto
  also have "int (nat t) = t" using assms by simp
  finally show ?thesis using c q_def by simp
qed

lemma slice_step_pos:
  "1 \<le> t \<Longrightarrow> py_slice_step xs t = Inr (stride_from (nat t) 0 xs)"
  by (simp add: py_slice_step_def)

lemma slice_from_nonneg: "0 \<le> b \<Longrightarrow> py_slice_from xs b = drop (nat b) xs"
  by (simp add: py_slice_from_def)

lemma gibbs_pos:
  assumes "1 \<le> t" "0 \<le> b"
  shows "gibbs_accept_reject draws x0 t b N h p
    = Inr (drop (nat b) (stride_from (nat t) 0 (gibbs_raw draws x0 N h p)))"
  using assms by (simp add: gibbs_accept_reject_def slice_step_pos slice_from_nonneg)

text \<open>
  Claim C3. For thinning \<open>\<ge> 1\<close> and burn-in \<open>\<ge> 0\<close>, the chain returned by
  \<open>gibbs_accept_reject\<close> is obtained from the recorded per-sweep chain by first keeping
  the states at every \<open>thinning\<close>-th index (a fixed stride) and then dropping the first
  \<open>burnin\<close> elements of that thinned sequence: burn-in counts thinned elements.
\<close>

theorem gibbs_thin_then_burn:
  assumes "1 \<le> thinning" and "0 \<le> burnin"
  shows "gibbs_accept_reject draws x0 thinning burnin N step_size target_pdf
    = Inr (drop (nat burnin) (keep_every (nat thinning)
             (gibbs_raw draws x0 N step_size target_pdf)))"
proof -
  have "0 < nat thinning" using assms(1) by simp
  then show ?thesis
    using gibbs_pos [OF assms] stride_keep_every by metis
qed

theorem gibbs_thin_then_burn_witness:
  "gibbs_accept_reject example_draws (Float64 [0]) 2 1 5 1 flat_density
     = Inr (drop (nat 1) (keep_every (nat 2) (gibbs_raw example_draws (Float64 [0]) 5 1 flat_density)))
   \<and> gibbs_raw example_draws (Float64 [0]) 5 1 flat_density = [Float64 [1 / 2], Float64 [1], Float64 [3 / 2], Float64 [2], Float64 [5 / 2]]
   \<and> gibbs_accept_reject example_draws (Float64 [0]) 2 1 5 1 flat_density = Inr [Float64 [3 / 2], Float64 [5 / 2]]"
proof -
  have h1: "(1::int) \<le> 2" and h2: "(0::int) \<le> 1" by simp_all
  have a: "gibbs_accept_reject example_draws (Float64 [0]) 2 1 5 1 flat_density
     = Inr (drop (nat 1) (keep_every (nat 2) (gibbs_raw example_draws (Float64 [0]) 5 1 flat_density)))"
    by (rule gibbs_thin_then_burn [OF h1 h2])
  have b: "gibbs_raw example_draws (Float64 [0]) 5 1 flat_density = [Float64 [1 / 2], Float64 [1], Float64 [3 / 2], Float64 [2], Float64 [5 / 2]]"
    by code_simp
  have c: "gibbs_accept_reject example_draws (Float64 [0]) 2 1 5 1 flat_density = Inr [Float64 [3 / 2], Float64 [5 / 2]]"
    by code_simp
  show ?thesis by (intro conjI a b c)
qed

text \<open>
  Claim C10. For \<open>N \<ge> 1\<close> sweeps, thinning \<open>t \<ge> 1\<close> and burn-in \<open>b \<ge> 0\<close>, the thinning
  slice keeps the recorded states of index \<open>0, t, 2t, \<dots>\<close> (the first recorded sweep
  included), \<open>\<lceil>N / t\<rceil>\<close> of them, and the returned chain has length
  \<open>max 0 (\<lceil>N / t\<rceil> - b)\<close>, its \<open>k\<close>-th state being the recorded state of index
  \<open>(b + k) * t\<close>; it is empty when \<open>b \<ge> \<lceil>N / t\<rceil>\<close>.
\<close>

theorem gibbs_chain_length:
  assumes "1 \<le> N" and "1 \<le> thinning" and "0 \<le> burnin"
  shows "\<exists>thinned chain.
      py_slice_step (gibbs_raw draws x0 N step_size target_pdf) thinning = Inr thinned
    \<and> int (length thinned) = \<lceil>real_of_int N / real_of_int thinning\<rceil>
    \<and> (\<forall>i < length thinned.
          thinned ! i = gibbs_raw draws x0 N step_size target_pdf ! (i * nat thinning))
    \<and> thinned ! 0 = gibbs_raw draws x0 N step_size target_pdf ! 0
    \<and> gibbs_accept_reject draws x0 thinning burnin N step_size target_pdf = Inr chain
    \<and> int (length chain) = max 0 (\<lceil>real_of_int N / real_of_int thinning\<rceil> - burnin)
    \<and> (\<forall>k < length chain.
          chain ! k = gibbs_raw draws x0 N step_size target_pdf ! ((nat burnin + k) * nat thinning))
    \<and> (\<lceil>real_of_int N / real_of_int thinning\<rceil> \<le> burnin \<longrightarrow> chain = [])"
proof -
  let ?raw = "gibbs_raw draws x0 N step_size target_pdf"
  let ?t = "nat thinning"
  let ?th = "stride_from ?t 0 ?raw"
  let ?ch = "drop (nat burnin) ?th"
  have tpos: "0 < ?t" using assms(2) by simp
  have len_th: "length ?th = (nat N + ?t - 1) div ?t"
    using stride_from_length [OF tpos, of 0 ?raw] by (simp add: gibbs_raw_length)
  have ceil: "int (length ?th) = \<lceil>real_of_int N / real_of_int thinning\<rceil>"
    using ceiling_div_nat [of N thinning] assms len_th by simp
  have nth_th: "\<forall>i < length ?th. ?th ! i = ?raw ! (i * ?t)"
    using stride_from_nth [OF tpos, of _ 0 ?raw] by simp
  have "1 \<le> \<lceil>real_of_int N / real_of_int thinning\<rceil>"
    using assms by (simp add: ceiling_div_nat div_greater_zero_iff Suc_le_eq)
  then have "0 < length ?th" using ceil by linarith
  then have first: "?th ! 0 = ?raw ! 0" using nth_th by force
  have len_ch: "int (length ?ch) = max 0 (\<lceil>real_of_int N / real_of_int thinning\<rceil> - burnin)"
    using ceil assms(3) by auto
  have nth_ch: "\<forall>k < length ?ch. ?ch ! k = ?raw ! ((nat burnin + k) * ?t)"
  proof (intro allI impI)
    fix k assume "k < length ?ch"
    then have "nat burnin + k < length ?th" by simp
    then show "?ch ! k = ?raw ! ((nat burnin + k) * ?t)"
      using nth_th by simp
  qed
  have emp: "\<lceil>real_of_int N / real_of_int thinning\<rceil> \<le> burnin \<longrightarrow> ?ch = []"
    using ceil by auto
  show ?thesis
    using slice_step_pos [OF assms(2), of ?raw] gibbs_pos [OF assms(2,3), of draws x0 N step_size target_pdf]
      ceil nth_th first len_ch nth_ch emp
    by blast
qed

theorem gibbs_chain_length_witness:
  "(\<exists>chain. gibbs_accept_reject example_draws (Float64 [0]) 2 1 5 1 flat_density = Inr chain
      \<and> length chain = 2
      \<and> chain ! 0 = gibbs_raw example_draws (Float64 [0]) 5 1 flat_density ! 2)
   \<and> gibbs_accept_reject example_draws (Float64 [0]) 2 3 5 1 flat_density = Inr []"
proof -
  have h1: "(1::int) \<le> 5" and h2: "(1::int) \<le> 2" and h3: "(0::int) \<le> 1"
    and h3': "(0::int) \<le> 3" by simp_all
  have c: "\<lceil>real_of_int 5 / real_of_int 2\<rceil> = 3"
    by (rule ceiling_unique) simp_all
  obtain thinned chain where
    r: "gibbs_accept_reject example_draws (Float64 [0]) 2 1 5 1 flat_density = Inr chain"
    and l: "int (length chain) = max 0 (\<lceil>real_of_int 5 / real_of_int 2\<rceil> - 1)"
    and n: "\<forall>k < length chain.
          chain ! k = gibbs_raw example_draws (Float64 [0]) 5 1 flat_density ! ((nat 1 + k) * nat 2)"
    using gibbs_chain_length [OF h1 h2 h3, of example_draws "Float64 [0]" 1 flat_density] by blast
  have len: "length chain = 2" using l c by simp
  have "(0::nat) < length chain" using len by simp
  then have "chain ! 0 = gibbs_raw example_draws (Float64 [0]) 5 1 flat_density ! ((nat 1 + 0) * nat 2)"
    using n by blast
  moreover have "(nat 1 + 0) * nat 2 = 2" by simp
  ultimately have "chain ! 0 = gibbs_raw example_draws (Float64 [0]) 5 1 flat_density ! 2" by simp
  then have first: "\<exists>chain. gibbs_accept_reject example_draws (Float64 [0]) 2 1 5 1 flat_density = Inr chain
      \<and> length chain = 2
      \<and> chain ! 0 = gibbs_raw example_draws (Float64 [0]) 5 1 flat_density ! 2"
    using r len by blast
  obtain thinned' chain' where
    r': "gibbs_accept_reject example_draws (Float64 [0]) 2 3 5 1 flat_density = Inr chain'"
    and e: "\<lceil>real_of_int 5 / real_of_int 2\<rceil> \<le> 3 \<longrightarrow> chain' = []"
    using gibbs_chain_length [OF h1 h2 h3', of example_draws "Float64 [0]" 1 flat_density] by blast
  have "chain' = []" using e c by simp
  then show ?thesis using first r' by blast
qed

text \<open>
  Claim C7 asks for an explicit error when the burn-in uses up the thinned chain. The
  sampler has none: with three sweeps, thinning two and burn-in two it returns the empty
  chain as an ordinary result.
\<close>

theorem gibbs_empty_chain_is_returned:
  "gibbs_accept_reject example_draws (Float64 [0]) 2 2 3 1 flat_density = Inr []"
  by code_simp

text \<open>
  Claim C7, as the code has it. When the burn-in is at least the length of the thinned
  chain, \<open>gibbs_accept_reject\<close> returns the empty chain, and no error is signalled.
\<close>

theorem gibbs_burnin_exhausts_chain:
  assumes "py_slice_step (gibbs_raw draws x0 N step_size target_pdf) thinning = Inr thinned"
    and "int (length thinned) \<le> burnin"
  shows "gibbs_accept_reject draws x0 thinning burnin N step_size target_pdf = Inr []"
  using assms by (simp add: gibbs_accept_reject_def py_slice_from_def)

theorem gibbs_burnin_exhausts_chain_witness:
  "py_slice_step (gibbs_raw example_draws (Float64 [0]) 2 1 flat_density) 1 = Inr [Float64 [1 / 2], Float64 [1]]
   \<and> int (length [Float64 [1 / 2], Float64 [1]]) \<le> 5
   \<and> gibbs_accept_reject example_draws (Float64 [0]) 1 5 2 1 flat_density = Inr []"
proof -
  have a: "py_slice_step (gibbs_raw example_draws (Float64 [0]) 2 1 flat_density) 1 = Inr [Float64 [1 / 2], Float64 [1]]"
    by code_simp
  have b: "int (length [Float64 [1 / 2], Float64 [1]]) \<le> 5" by simp
  show ?thesis using a b gibbs_burnin_exhausts_chain [OF a b] by blast
qed

section \<open>Arithmetic on finite and special values\<close>

lemma foldl_fadd_Fin: "foldl fadd (Fin a) (map Fin xs) = Fin (a + sum_list xs)"
  by (induction xs arbitrary: a) (simp_all add: add.assoc)

lemma np_sum_Fin: "np_sum (map Fin xs) = Fin (sum_list xs)"
  by (simp add: np_sum_def foldl_fadd_Fin)

lemma np_mean_Fin:
  "xs \<noteq> [] \<Longrightarrow> np_mean (map Fin xs) = Fin (sum_list xs / real (length xs))"
  by (simp add: np_mean_def np_sum_Fin)

lemma np_var_Fin:
  assumes "ddof < length xs"
  shows "np_var ddof (map Fin xs)
    = Fin ((\<Sum>a\<leftarrow>xs. (a - sum_list xs / real (length xs))\<^sup>2) / real (length xs - ddof))"
proof -
  have ne: "xs \<noteq> []" using assms by auto
  let ?m = "sum_list xs / real (length xs)"
  have sq: "map (\<lambda>d. fmul d d) (map (\<lambda>a. fsub a (Fin ?m)) (map Fin xs))
      = map Fin (map (\<lambda>a. (a - ?m)\<^sup>2) xs)"
    by (simp add: fsub_def power2_eq_square)
  have nz: "real (length xs - ddof) \<noteq> 0" using assms by simp
  show ?thesis
    unfolding np_var_def Let_def np_mean_Fin [OF ne] sq np_sum_Fin
    using nz by simp
qed








section \<open>The blocking curve\<close>

lemma log2_floor_bounds:
  "1 \<le> q \<Longrightarrow> 2 ^ log2_floor q \<le> q \<and> q < 2 ^ (log2_floor q + 1)"
proof (induction q rule: log2_floor.induct)
  case (1 q)
  show ?case
  proof (cases "q < 2")
    case True
    then have "log2_floor q = 0" by (simp add: log2_floor.simps)
    then show ?thesis using True "1.prems" by simp
  next
    case False
    then have h: "1 \<le> q div 2" by simp
    have ih: "2 ^ log2_floor (q div 2) \<le> q div 2 \<and> q div 2 < 2 ^ (log2_floor (q div 2) + 1)"
      using "1.IH" [OF False h] .
    have unf: "log2_floor q = Suc (log2_floor (q div 2))"
      using False by (subst log2_floor.simps) simp
    have a: "2 * 2 ^ log2_floor (q div 2) \<le> q" using ih by linarith
    have b: "q < 2 * 2 ^ (log2_floor (q div 2) + 1)" using ih by linarith
    show ?thesis unfolding unf using a b by simp
  qed
qed

lemma reshape_blocks:
  "np_reshape (length series div L) L (take (length series div L * L) series)
     = Inr (rows_of (length series div L) L (take (length series div L * L) series))"
proof -
  have "length series div L * L \<le> length series" by simp
  then have "length (take (length series div L * L) series) = length series div L * L"
    by simp
  then show ?thesis unfolding np_reshape_def by simp
qed

lemma bv_loop_all:
  assumes "\<forall>L \<in> set Ls. min_blocks \<le> int (length series div L)"
  shows "bv_loop series min_blocks Ls vm ev
    = Inr (vm @ map (block_estimate series) Ls, ev @ map (block_error series) Ls)"
  using assms
proof (induction Ls arbitrary: vm ev)
  case Nil
  then show ?case by simp
next
  case (Cons L Ls)
  have guard: "\<not> int (length series div L) < min_blocks" using Cons.prems by simp
  have rest: "\<forall>L \<in> set Ls. min_blocks \<le> int (length series div L)" using Cons.prems by simp
  have step: "bv_loop series min_blocks (L # Ls) vm ev
      = bv_loop series min_blocks Ls (vm @ [block_estimate series L]) (ev @ [block_error series L])"
    using guard
    by (simp add: reshape_blocks block_estimate_def block_error_def Let_def)
  show ?case unfolding step Cons.IH [OF rest] by simp
qed

lemma pow_le_blocks:
  fixes m N k :: nat
  assumes "0 < m" and "k \<le> log2_floor (N div m)" and "m \<le> N"
  shows "m \<le> N div 2 ^ k"
proof -
  have q: "1 \<le> N div m" using assms(1,3) by (simp add: div_greater_zero_iff Suc_le_eq)
  have "(2::nat) ^ k \<le> 2 ^ log2_floor (N div m)" using assms(2) by simp
  also have "\<dots> \<le> N div m" using log2_floor_bounds [OF q] by simp
  finally have "2 ^ k * m \<le> N" using assms(1) by (simp add: less_eq_div_iff_mult_less_eq)
  then have "m * 2 ^ k \<le> N" by (simp add: mult.commute)
  then show ?thesis by (simp add: less_eq_div_iff_mult_less_eq)
qed

lemma pow_gt_blocks:
  fixes m N :: nat
  assumes "0 < m" and "m \<le> N"
  shows "N div 2 ^ (log2_floor (N div m) + 1) < m"
proof -
  have q: "1 \<le> N div m" using assms by (simp add: div_greater_zero_iff Suc_le_eq)
  have "N div m < 2 ^ (log2_floor (N div m) + 1)" using log2_floor_bounds [OF q] by simp
  then have "N < 2 ^ (log2_floor (N div m) + 1) * m"
    using assms(1) by (simp add: div_less_iff_less_mult)
  then have "N < m * 2 ^ (log2_floor (N div m) + 1)" by (simp add: mult.commute)
  then show ?thesis by (simp add: div_less_iff_less_mult)
qed

lemma blocks_le_pow:
  fixes m N k :: nat
  assumes "0 < m" and "m \<le> N div 2 ^ k"
  shows "k \<le> log2_floor (N div m)"
proof -
  have "m * 2 ^ k \<le> N" using assms(2) by (simp add: less_eq_div_iff_mult_less_eq)
  then have mN: "2 ^ k * m \<le> N" by (simp add: mult.commute)
  then have a: "2 ^ k \<le> N div m" using assms(1) by (simp add: less_eq_div_iff_mult_less_eq)
  then have q: "1 \<le> N div m" by (meson one_le_numeral one_le_power order_trans)
  have "N div m < 2 ^ (log2_floor (N div m) + 1)" using log2_floor_bounds [OF q] by simp
  then have "(2::nat) ^ k < 2 ^ (log2_floor (N div m) + 1)" using a by linarith
  then have "k < log2_floor (N div m) + 1"
    using power_less_imp_less_exp [of 2 k "log2_floor (N div m) + 1"] by simp
  then show ?thesis by simp
qed

lemma blocking_variance_value:
  assumes "1 \<le> min_blocks" and "min_blocks \<le> int (length series)"
  shows "blocking_variance series min_blocks
     = Inr (map (\<lambda>k. 2 ^ k) [0..<log2_floor (length series div nat min_blocks) + 1],
            map (block_estimate series)
              (map (\<lambda>k. 2 ^ k) [0..<log2_floor (length series div nat min_blocks) + 1]),
            map (block_error series)
              (map (\<lambda>k. 2 ^ k) [0..<log2_floor (length series div nat min_blocks) + 1]))"
proof -
  let ?N = "length series"
  let ?m = "nat min_blocks"
  let ?mp = "log2_floor (?N div ?m)"
  let ?bs = "map (\<lambda>k. (2::nat) ^ k) [0..<?mp + 1]"
  have m: "0 < ?m" "?m \<le> ?N" "int ?m = min_blocks" using assms by auto
  have qeq: "int ?N div min_blocks = int (?N div ?m)"
    using m(3) by (metis zdiv_int)
  have qpos: "1 \<le> ?N div ?m" using m by (simp add: div_greater_zero_iff Suc_le_eq)
  have lg: "py_int_log2 (int ?N div min_blocks) = Inr ?mp"
    unfolding qeq py_int_log2_def using qpos by simp
  have all: "\<forall>L \<in> set ?bs. min_blocks \<le> int (?N div L)"
  proof
    fix L assume "L \<in> set ?bs"
    then obtain k where k: "L = 2 ^ k" "k \<le> ?mp" by auto
    have "?m \<le> ?N div 2 ^ k" using pow_le_blocks [OF m(1) k(2) m(2)] .
    then have "int ?m \<le> int (?N div 2 ^ k)" by (rule iffD2 [OF of_nat_le_iff])
    then show "min_blocks \<le> int (?N div L)" unfolding k(1) m(3) .
  qed
  have loop: "bv_loop series min_blocks ?bs [] []
      = Inr (map (block_estimate series) ?bs, map (block_error series) ?bs)"
    using bv_loop_all [OF all, of "[]" "[]"] by simp
  have nz: "min_blocks \<noteq> 0" using assms(1) by simp
  have "blocking_variance series min_blocks
      = (case bv_loop series min_blocks ?bs [] [] of
           Inl e \<Rightarrow> Inl e
         | Inr (var_mean, err_var) \<Rightarrow> Inr (take (length var_mean) ?bs, var_mean, err_var))"
    unfolding blocking_variance_def Let_def lg using nz by (simp only: sum.case if_False)
  also have "\<dots> = Inr (?bs, map (block_estimate series) ?bs, map (block_error series) ?bs)"
    unfolding loop by (simp del: upt_Suc)
  finally show ?thesis .
qed

lemma blocking_variance_returns:
  assumes "blocking_variance series min_blocks = Inr r"
  shows "1 \<le> min_blocks \<and> min_blocks \<le> int (length series)"
proof (rule ccontr)
  assume neg: "\<not> (1 \<le> min_blocks \<and> min_blocks \<le> int (length series))"
  have "\<exists>e. blocking_variance series min_blocks = Inl e"
  proof (cases "min_blocks = 0")
    case True
    then show ?thesis by (simp add: blocking_variance_def)
  next
    case False
    have "int (length series) div min_blocks \<le> 0"
    proof (cases "min_blocks < 0")
      case True
      then show ?thesis by (simp add: div_nonneg_neg_le0)
    next
      case False
      then have "int (length series) < min_blocks" using neg \<open>min_blocks \<noteq> 0\<close> by linarith
      then show ?thesis by (simp add: div_pos_pos_trivial)
    qed
    then have "\<exists>e. py_int_log2 (int (length series) div min_blocks) = Inl e"
      by (simp add: py_int_log2_def)
    then show ?thesis using False by (auto simp: blocking_variance_def)
  qed
  then show False using assms by simp
qed

lemma pow2_list_16_4: "map (\<lambda>k. (2::nat) ^ k) [0..<log2_floor (16 div nat 4) + 1] = [1, 2, 4]"
proof -
  have "log2_floor (16 div nat 4) = 2" by code_simp
  then show ?thesis by (simp add: upt_rec)
qed

text \<open>
  Claim C4. \<open>blocking_variance\<close> returns exactly when \<open>1 \<le> min_blocks \<le> N\<close>, and
  whenever it returns, its three sequences have the same length, the block lengths are
  the powers of two \<open>1, 2, 4, \<dots>\<close> in strictly increasing order, every block length
  kept gives at least \<open>min_blocks\<close> complete blocks, and the next power of two would
  give fewer (the curve is cut there, not padded). For \<open>N = 16\<close> and \<open>min_blocks = 4\<close>
  the block lengths are \<open>1, 2, 4\<close>.
\<close>

theorem blocking_truncation:
  "((1 \<le> min_blocks \<and> min_blocks \<le> int (length series))
      = (\<exists>r. blocking_variance series min_blocks = Inr r))
   \<and> (\<forall>bin_sizes var_mean err_var.
        blocking_variance series min_blocks = Inr (bin_sizes, var_mean, err_var) \<longrightarrow>
          length bin_sizes = length var_mean \<and> length var_mean = length err_var
        \<and> bin_sizes = map (\<lambda>k. 2 ^ k) [0..<length bin_sizes]
        \<and> bin_sizes ! 0 = 1
        \<and> sorted_wrt (<) bin_sizes
        \<and> (\<forall>L \<in> set bin_sizes. min_blocks \<le> int (length series div L))
        \<and> int (length series div 2 ^ length bin_sizes) < min_blocks
        \<and> (length series = 16 \<and> min_blocks = 4 \<longrightarrow> bin_sizes = [1, 2, 4]))"
proof (intro conjI allI impI)
  show "(1 \<le> min_blocks \<and> min_blocks \<le> int (length series))
      = (\<exists>r. blocking_variance series min_blocks = Inr r)"
    using blocking_variance_returns blocking_variance_value by blast
next
  fix bin_sizes var_mean err_var
  assume ret: "blocking_variance series min_blocks = Inr (bin_sizes, var_mean, err_var)"
  have pre: "1 \<le> min_blocks" "min_blocks \<le> int (length series)"
    using blocking_variance_returns [OF ret] by simp_all
  let ?N = "length series"
  let ?m = "nat min_blocks"
  let ?mp = "log2_floor (?N div ?m)"
  let ?bs = "map (\<lambda>k. (2::nat) ^ k) [0..<?mp + 1]"
  have m: "0 < ?m" "?m \<le> ?N" "int ?m = min_blocks" using pre by auto
  have "Inr (bin_sizes, var_mean, err_var)
      = (Inr (?bs, map (block_estimate series) ?bs, map (block_error series) ?bs)
          :: py_error + (nat list \<times> npfloat list \<times> npfloat list))"
    by (rule trans [OF ret [symmetric] blocking_variance_value [OF pre]])
  then have val: "bin_sizes = ?bs" "var_mean = map (block_estimate series) ?bs"
    "err_var = map (block_error series) ?bs"
    by (simp_all only: sum.inject prod.inject)
  have len: "length bin_sizes = ?mp + 1" unfolding val by simp
  show "length bin_sizes = length var_mean" unfolding val by simp
  show "length var_mean = length err_var" unfolding val by simp
  show "bin_sizes = map (\<lambda>k. 2 ^ k) [0..<length bin_sizes]" unfolding len unfolding val ..
  show "bin_sizes ! 0 = 1" unfolding val by (simp add: nth_append upt_rec [of 0])
  show "sorted_wrt (<) bin_sizes"
    unfolding val by (simp add: sorted_wrt_map sorted_wrt_upt del: upt_Suc)
  show "\<forall>L \<in> set bin_sizes. min_blocks \<le> int (?N div L)"
  proof
    fix L assume "L \<in> set bin_sizes"
    then obtain k where k: "L = 2 ^ k" "k \<le> ?mp" unfolding val by auto
    have "?m \<le> ?N div 2 ^ k" using pow_le_blocks [OF m(1) k(2) m(2)] .
    then have "int ?m \<le> int (?N div 2 ^ k)" by (rule iffD2 [OF of_nat_le_iff])
    then show "min_blocks \<le> int (?N div L)" unfolding k(1) m(3) .
  qed
  have "?N div 2 ^ (?mp + 1) < ?m" using pow_gt_blocks [OF m(1,2)] .
  then have "int (?N div 2 ^ (?mp + 1)) < int ?m" by (rule iffD2 [OF of_nat_less_iff])
  then show "int (?N div 2 ^ length bin_sizes) < min_blocks" unfolding len m(3) .
  assume "length series = 16 \<and> min_blocks = 4"
  then show "bin_sizes = [1, 2, 4]" using val(1) pow2_list_16_4 by simp
qed

theorem blocking_truncation_witness:
  "\<exists>var_mean err_var.
     blocking_variance (replicate 16 (Fin 0)) 4 = Inr ([1, 2, 4], var_mean, err_var)
     \<and> length var_mean = 3 \<and> length err_var = 3"
proof -
  have "(1::int) \<le> 4 \<and> (4::int) \<le> int (length (replicate 16 (Fin 0)))" by simp
  then obtain r where r: "blocking_variance (replicate 16 (Fin 0)) 4 = Inr r"
    using blocking_truncation [of 4 "replicate 16 (Fin 0)"] by blast
  obtain bs vm ev where t: "r = (bs, vm, ev)" by (cases r) auto
  note th = blocking_truncation [of 4 "replicate 16 (Fin 0)", THEN conjunct2, rule_format,
      OF r [unfolded t]]
  have c: "length (replicate 16 (Fin (0::real))) = 16 \<and> (4::int) = 4" by simp
  have p1: "length bs = length vm" and p2: "length vm = length ev" using th by blast+
  have p3: "bs = [1, 2, 4]" using th c by blast
  have "length vm = 3" using p1 unfolding p3 by simp
  moreover have "length ev = 3" using p1 p2 unfolding p3 by simp
  ultimately show ?thesis using r unfolding t p3 by simp
qed

text \<open>
  Claim C2, where the code departs from it. For a series shorter than \<open>min_blocks\<close>
  the quotient \<open>N // min_blocks\<close> is zero, its base-two logarithm is \<open>-inf\<close>, and the
  conversion to an integer raises \<open>OverflowError\<close>: no empty curve is returned.
\<close>

theorem blocking_short_series_raises:
  assumes "1 \<le> min_blocks" and "int (length series) < min_blocks"
  shows "blocking_variance series min_blocks = Inl OverflowError"
proof -
  have "int (length series) div min_blocks = 0"
    using assms by (simp add: div_pos_pos_trivial)
  then show ?thesis using assms(1) by (simp add: blocking_variance_def py_int_log2_def)
qed

theorem blocking_short_series_raises_witness:
  "blocking_variance [Fin 1, Fin 2, Fin 3] 4 = Inl OverflowError"
proof -
  have h1: "(1::int) \<le> 4" and h2: "int (length [Fin 1, Fin 2, Fin 3]) < 4" by simp_all
  show ?thesis by (rule blocking_short_series_raises [OF h1 h2])
qed

section \<open>Importance estimator\<close>

text \<open>
  Claim C9. On a non-empty chain where the integrand and the density are finite and the
  density is nonzero at every sample, \<open>importance_integration\<close> returns the arithmetic
  mean of the weights \<open>integrand x / target_density x\<close> taken over the chain.
\<close>

theorem importance_is_mean_of_weights:
  assumes "m_chain \<noteq> []"
    and "\<forall>x \<in> set m_chain. f x = Fin (fr x) \<and> target_pdf x = Fin (pr x) \<and> pr x \<noteq> 0"
  shows "importance_integration f target_pdf m_chain
    = Fin ((\<Sum>x\<leftarrow>m_chain. fr x / pr x) / real (length m_chain))"
proof -
  have w: "map (\<lambda>x. fdiv (f x) (target_pdf x)) m_chain = map Fin (map (\<lambda>x. fr x / pr x) m_chain)"
    using assms(2) by (induction m_chain) simp_all
  have ne: "map (\<lambda>x. fr x / pr x) m_chain \<noteq> []" using assms(1) by simp
  show ?thesis
    unfolding importance_integration_def Let_def w np_mean_Fin [OF ne] by simp
qed

theorem importance_is_mean_of_weights_witness:
  "importance_integration (\<lambda>x. Fin (hd x)) (\<lambda>x. Fin 2) [[1], [3], [8]] = Fin 2"
proof -
  have h1: "[[1], [3], [8 :: real]] \<noteq> []" by simp
  have h2: "\<forall>x \<in> set [[1], [3], [8 :: real]].
      (\<lambda>x. Fin (hd x)) x = Fin (hd x) \<and> (\<lambda>x. Fin 2) x = Fin ((\<lambda>x. 2) x) \<and> (\<lambda>x. 2 :: real) x \<noteq> 0"
    by simp
  show ?thesis
    using importance_is_mean_of_weights [of "[[1], [3], [8]]" "\<lambda>x. Fin (hd x)" hd "\<lambda>x. Fin 2" "\<lambda>x. 2", OF h1 h2]
    by simp
qed

section \<open>Zeros of the density\<close>





section \<open>Sweeps of the sampler\<close>

lemma nd_set_length: "nd_length (nd_set x j v) = nd_length x"
  by (cases x) simp_all

lemma nd_set_other: "i \<noteq> j \<Longrightarrow> nd_get (nd_set x j v) i = nd_get x i"
  by (cases x) simp_all

lemma trunc_real_of_int: "trunc_real (real_of_int k) = k"
  by (simp add: trunc_real_def)

lemma cast_int64_sint: "cast_int64 (real_of_int (sint (w :: 64 word))) = w"
proof -
  have lo: "- (2 ^ 63) \<le> sint w" using sint_ge [of w] by simp
  have hi: "sint w < 2 ^ 63" using sint_lt [of w] by simp
  show ?thesis
    unfolding cast_int64_def Let_def trunc_real_of_int using lo hi by simp
qed

lemma cast_int64_in_range:
  assumes "- (2 ^ 63) \<le> trunc_real v" and "trunc_real v < 2 ^ 63"
  shows "sint (cast_int64 v) = trunc_real v"
proof -
  have "cast_int64 v = word_of_int (trunc_real v)"
    unfolding cast_int64_def Let_def using assms by simp
  moreover have "sint (word_of_int (trunc_real v) :: 64 word) = trunc_real v"
    using assms by (simp add: sint_sbintrunc' signed_take_bit_int_eq_self)
  ultimately show ?thesis by simp
qed

lemma nd_commit:
  assumes "j < nd_length x"
  shows "nd_set x j (nd_get (nd_set x j v) j) = nd_set x j v"
proof (cases x)
  case (Int64 ws)
  then show ?thesis using assms by (simp add: cast_int64_sint del: of_int_sint)
next
  case (Float64 xs)
  then show ?thesis using assms by simp
qed

lemma ratio_decision:
  "a \<noteq> 0 \<Longrightarrow> flt (Fin u) (fdiv (Fin b) (Fin a)) = (u < b / a)"
  by simp

lemma gibbs_coord_shape:
  "nd_length (fst (gibbs_coord draws h p j s)) = nd_length (fst s)
   \<and> snd (gibbs_coord draws h p j s) = snd s + 2"
  by (simp add: gibbs_coord_def Let_def nd_set_length)

lemma foldl_gibbs_coord_shape:
  "nd_length (fst (foldl (\<lambda>s j. gibbs_coord draws h p j s) s js)) = nd_length (fst s)
   \<and> snd (foldl (\<lambda>s j. gibbs_coord draws h p j s) s js) = snd s + 2 * length js"
proof (induction js arbitrary: s)
  case Nil
  then show ?case by simp
next
  case (Cons j js)
  show ?case
    using Cons.IH [of "gibbs_coord draws h p j s"] gibbs_coord_shape [of draws h p j s]
    by simp
qed

lemma gibbs_sweep_shape:
  "nd_length (fst (gibbs_sweep draws h p d s)) = nd_length (fst s)
   \<and> snd (gibbs_sweep draws h p d s) = snd s + 2 * d"
  using foldl_gibbs_coord_shape [of draws h p s "[0..<d]"]
  by (simp add: gibbs_sweep_def)

lemma gibbs_sweep_order:
  "gibbs_sweep draws h p 0 s = s
   \<and> gibbs_sweep draws h p (Suc d) s = gibbs_coord draws h p d (gibbs_sweep draws h p d s)"
  by (simp add: gibbs_sweep_def)

lemma gibbs_loop_states:
  "gibbs_loop draws h p d n s samples
     = samples @ map (\<lambda>k. fst ((gibbs_sweep draws h p d ^^ Suc k) s)) [0..<n]"
proof (induction n arbitrary: s samples)
  case 0
  then show ?case by simp
next
  case (Suc n)
  let ?sw = "gibbs_sweep draws h p d"
  have up: "[0..<Suc n] = 0 # map Suc [0..<n]"
    by (metis map_Suc_upt upt_conv_Cons zero_less_Suc)
  have shift: "\<And>k. (?sw ^^ Suc k) (?sw s) = (?sw ^^ Suc (Suc k)) s"
    by (simp add: funpow_swap1)
  have "gibbs_loop draws h p d (Suc n) s samples
      = gibbs_loop draws h p d n (?sw s) (samples @ [fst (?sw s)])"
    by (simp add: Let_def)
  also have "\<dots> = (samples @ [fst (?sw s)]) @ map (\<lambda>k. fst ((?sw ^^ Suc k) (?sw s))) [0..<n]"
    by (rule Suc.IH)
  also have "\<dots> = samples @ map (\<lambda>k. fst ((?sw ^^ Suc k) s)) [0..<Suc n]"
    unfolding up shift by (simp add: comp_def)
  finally show ?case .
qed

lemma rng_uniform_range:
  assumes "0 \<le> u" and "u < 1" and "0 < h"
  shows "- h \<le> rng_uniform (- h) h u \<and> rng_uniform (- h) h u < h"
proof -
  have e: "rng_uniform (- h) h u = - h + 2 * h * u" by (simp add: rng_uniform_def)
  have "0 \<le> 2 * h * u" using assms by simp
  moreover have "2 * h * u < 2 * h" using assms by simp
  ultimately show ?thesis unfolding e by linarith
qed

lemma gibbs_coord_decision:
  assumes "j < nd_length x" and "p x = Fin a" and "a \<noteq> 0"
    and "p (nd_set x j (nd_get x j + rng_uniform (- h) h (draws pos))) = Fin b"
  shows "gibbs_coord draws h p j (x, pos)
    = (if draws (pos + 1) < b / a
       then nd_set x j (nd_get x j + rng_uniform (- h) h (draws pos)) else x, pos + 2)"
  unfolding gibbs_coord_def Let_def fst_conv snd_conv assms(2) assms(4)
    nd_commit [OF assms(1)] ratio_decision [OF assms(3)]
  by simp

lemma proposal_float:
  "j < length xs \<Longrightarrow> nd_get (nd_set (Float64 xs) j v) j = v"
  by simp

lemma proposal_int:
  assumes "j < length ws" and "- (2 ^ 63) \<le> trunc_real v" and "trunc_real v < 2 ^ 63"
  shows "nd_get (nd_set (Int64 ws) j v) j = real_of_int (trunc_real v)"
  using assms by (simp add: cast_int64_in_range del: of_int_sint)

text \<open>
  Claim C5, where the code departs from it. Where the densities of the current state and
  of the proposal are finite and the former is not zero, the inner step for coordinate
  \<open>j\<close> draws a variate \<open>delta\<close> from \<open>[-h, h)\<close>, leaves every other coordinate as it is,
  draws a second variate \<open>u\<close>, and moves to the proposal exactly when \<open>u\<close> is below the
  quotient of the two densities; a sweep handles the coordinates in increasing order
  with two variates each, and the state after each sweep is recorded, \<open>N\<close> states in
  all. On a \<open>float64\<close> state the proposed coordinate is \<open>x[j] + delta\<close>, as the claim
  says. On an \<open>int64\<close> state, which \<open>np.array(x0)\<close> is for a list of Python integers, the
  store truncates: the proposed coordinate is \<open>x[j] + delta\<close> cut towards zero, so that a
  chain started at zero with \<open>h \<le> 1\<close> never moves.
\<close>

theorem gibbs_step_by_dtype:
  "(j < nd_length x \<and> target_pdf x = Fin a \<and> a \<noteq> 0
      \<and> target_pdf (nd_set x j (nd_get x j + rng_uniform (- step_size) step_size (draws pos)))
          = Fin b
    \<longrightarrow>
      (let delta = rng_uniform (- step_size) step_size (draws pos);
           x_prop = nd_set x j (nd_get x j + delta);
           u = draws (pos + 1)
       in gibbs_coord draws step_size target_pdf j (x, pos)
            = (if u < b / a then x_prop else x, pos + 2)
          \<and> nd_length x_prop = nd_length x
          \<and> (\<forall>i < nd_length x. i \<noteq> j \<longrightarrow> nd_get x_prop i = nd_get x i)
          \<and> ((\<exists>xs. x = Float64 xs) \<longrightarrow> nd_get x_prop j = nd_get x j + delta)
          \<and> ((\<exists>ws. x = Int64 ws) \<and> - (2 ^ 63) \<le> trunc_real (nd_get x j + delta)
                \<and> trunc_real (nd_get x j + delta) < 2 ^ 63
              \<longrightarrow> nd_get x_prop j = real_of_int (trunc_real (nd_get x j + delta)))
          \<and> (0 \<le> draws pos \<and> draws pos < 1 \<and> 0 < step_size
                \<longrightarrow> - step_size \<le> delta \<and> delta < step_size)))
   \<and> gibbs_sweep draws step_size target_pdf 0 (x, pos) = (x, pos)
   \<and> gibbs_sweep draws step_size target_pdf (Suc d) (x, pos)
        = gibbs_coord draws step_size target_pdf d (gibbs_sweep draws step_size target_pdf d (x, pos))
   \<and> nd_length (fst (gibbs_sweep draws step_size target_pdf d (x, pos))) = nd_length x
   \<and> snd (gibbs_sweep draws step_size target_pdf d (x, pos)) = pos + 2 * d
   \<and> length (gibbs_raw draws x0 N step_size target_pdf) = nat N
   \<and> (\<forall>k < nat N. gibbs_raw draws x0 N step_size target_pdf ! k
          = fst ((gibbs_sweep draws step_size target_pdf (nd_length x0) ^^ Suc k) (x0, 0)))"
proof (intro conjI impI)
  assume pre: "j < nd_length x \<and> target_pdf x = Fin a \<and> a \<noteq> 0
      \<and> target_pdf (nd_set x j (nd_get x j + rng_uniform (- step_size) step_size (draws pos)))
          = Fin b"
  let ?delta = "rng_uniform (- step_size) step_size (draws pos)"
  let ?xp = "nd_set x j (nd_get x j + ?delta)"
  have j: "j < nd_length x" and pa: "target_pdf x = Fin a" and a: "a \<noteq> 0"
    and pb: "target_pdf ?xp = Fin b"
    using pre by blast+
  have step: "gibbs_coord draws step_size target_pdf j (x, pos)
      = (if draws (pos + 1) < b / a then ?xp else x, pos + 2)"
    using gibbs_coord_decision [of j x target_pdf a step_size draws pos b] j pa a pb by blast
  have len: "nd_length ?xp = nd_length x" by (rule nd_set_length)
  have other: "\<forall>i < nd_length x. i \<noteq> j \<longrightarrow> nd_get ?xp i = nd_get x i"
    using nd_set_other by blast
  have fl: "(\<exists>xs. x = Float64 xs) \<longrightarrow> nd_get ?xp j = nd_get x j + ?delta"
  proof
    assume "\<exists>xs. x = Float64 xs"
    then obtain xs where xs: "x = Float64 xs" by blast
    have "j < length xs" using j xs by simp
    then show "nd_get ?xp j = nd_get x j + ?delta"
      unfolding xs by (rule proposal_float)
  qed
  have it: "(\<exists>ws. x = Int64 ws) \<and> - (2 ^ 63) \<le> trunc_real (nd_get x j + ?delta)
        \<and> trunc_real (nd_get x j + ?delta) < 2 ^ 63
      \<longrightarrow> nd_get ?xp j = real_of_int (trunc_real (nd_get x j + ?delta))"
  proof
    assume h: "(\<exists>ws. x = Int64 ws) \<and> - (2 ^ 63) \<le> trunc_real (nd_get x j + ?delta)
        \<and> trunc_real (nd_get x j + ?delta) < 2 ^ 63"
    then obtain ws where ws: "x = Int64 ws" by blast
    have jl: "j < length ws" using j ws by simp
    have lo: "- (2 ^ 63) \<le> trunc_real (nd_get (Int64 ws) j + ?delta)"
      and hi: "trunc_real (nd_get (Int64 ws) j + ?delta) < 2 ^ 63"
      using h ws by blast+
    show "nd_get ?xp j = real_of_int (trunc_real (nd_get x j + ?delta))"
      unfolding ws by (rule proposal_int [OF jl lo hi])
  qed
  have range: "0 \<le> draws pos \<and> draws pos < 1 \<and> 0 < step_size
      \<longrightarrow> - step_size \<le> ?delta \<and> ?delta < step_size"
    using rng_uniform_range by blast
  show "let delta = rng_uniform (- step_size) step_size (draws pos);
           x_prop = nd_set x j (nd_get x j + delta);
           u = draws (pos + 1)
       in gibbs_coord draws step_size target_pdf j (x, pos)
            = (if u < b / a then x_prop else x, pos + 2)
          \<and> nd_length x_prop = nd_length x
          \<and> (\<forall>i < nd_length x. i \<noteq> j \<longrightarrow> nd_get x_prop i = nd_get x i)
          \<and> ((\<exists>xs. x = Float64 xs) \<longrightarrow> nd_get x_prop j = nd_get x j + delta)
          \<and> ((\<exists>ws. x = Int64 ws) \<and> - (2 ^ 63) \<le> trunc_real (nd_get x j + delta)
                \<and> trunc_real (nd_get x j + delta) < 2 ^ 63
              \<longrightarrow> nd_get x_prop j = real_of_int (trunc_real (nd_get x j + delta)))
          \<and> (0 \<le> draws pos \<and> draws pos < 1 \<and> 0 < step_size
                \<longrightarrow> - step_size \<le> delta \<and> delta < step_size)"
    unfolding Let_def using step len other fl it range by blast
next
  show "gibbs_sweep draws step_size target_pdf 0 (x, pos) = (x, pos)"
    using gibbs_sweep_order by blast
next
  show "gibbs_sweep draws step_size target_pdf (Suc d) (x, pos)
        = gibbs_coord draws step_size target_pdf d (gibbs_sweep draws step_size target_pdf d (x, pos))"
    using gibbs_sweep_order by blast
next
  show "nd_length (fst (gibbs_sweep draws step_size target_pdf d (x, pos))) = nd_length x"
    using gibbs_sweep_shape [of draws step_size target_pdf d "(x, pos)"] by simp
next
  show "snd (gibbs_sweep draws step_size target_pdf d (x, pos)) = pos + 2 * d"
    using gibbs_sweep_shape [of draws step_size target_pdf d "(x, pos)"] by simp
next
  show "length (gibbs_raw draws x0 N step_size target_pdf) = nat N"
    by (rule gibbs_raw_length)
next
  show "\<forall>k < nat N. gibbs_raw draws x0 N step_size target_pdf ! k
          = fst ((gibbs_sweep draws step_size target_pdf (nd_length x0) ^^ Suc k) (x0, 0))"
    unfolding gibbs_raw_def Let_def gibbs_loop_states by (simp del: funpow.simps upt_Suc)
qed

theorem gibbs_step_by_dtype_witness:
  "gibbs_coord example_draws 1 cauchy_density 0 (Float64 [0], 0) = (Float64 [1 / 2], 2)
   \<and> nd_get (nd_set (Float64 [0]) 0
         (nd_get (Float64 [0]) 0 + rng_uniform (- 1) 1 (example_draws 0))) 0 = 1 / 2
   \<and> - 1 \<le> rng_uniform (- 1) 1 (example_draws 0)
   \<and> rng_uniform (- 1) 1 (example_draws 0) < 1
   \<and> gibbs_coord example_draws 1 cauchy_density 0 (Float64 [- 1], 1) = (Float64 [- 1], 3)
   \<and> gibbs_coord example_draws 1 cauchy_density 0 (Int64 [0], 0) = (Int64 [0], 2)
   \<and> nd_get (nd_set (Int64 [0]) 0
         (nd_get (Int64 [0]) 0 + rng_uniform (- 1) 1 (example_draws 0))) 0 = 0
   \<and> gibbs_raw example_draws (Float64 [0]) 3 1 cauchy_density
       = [Float64 [1 / 2], Float64 [1], Float64 [3 / 2]]
   \<and> gibbs_raw example_draws (Int64 [0]) 3 1 cauchy_density
       = [Int64 [0], Int64 [0], Int64 [0]]"
proof -
  have d0: "rng_uniform (- 1) 1 (example_draws 0) = 1 / 2"
    by (simp add: rng_uniform_def example_draws_def)
  have d1: "rng_uniform (- 1) 1 (example_draws 1) = - (1 / 2)"
    by (simp add: rng_uniform_def example_draws_def)
  have u1: "example_draws (0 + 1) = 1 / 4" and u2: "example_draws (1 + 1) = 3 / 4"
    by (simp_all add: example_draws_def)
  \<comment> \<open>an accepted step on a float state: the quotient is 4/5, the variate 1/4\<close>
  have p1: "0 < nd_length (Float64 [0]) \<and> cauchy_density (Float64 [0]) = Fin 4 \<and> (4::real) \<noteq> 0
      \<and> cauchy_density (nd_set (Float64 [0]) 0
            (nd_get (Float64 [0]) 0 + rng_uniform (- 1) 1 (example_draws 0))) = Fin (16 / 5)"
    unfolding d0 by (simp add: cauchy_density_def power2_eq_square)
  note s1 = gibbs_step_by_dtype [where j = 0 and x = "Float64 [0]" and target_pdf = cauchy_density
      and a = 4 and b = "16 / 5" and step_size = 1 and draws = example_draws and pos = 0,
      THEN conjunct1, THEN mp, OF p1, unfolded Let_def]
  have a: "gibbs_coord example_draws 1 cauchy_density 0 (Float64 [0], 0) = (Float64 [1 / 2], 2)"
    using s1 [THEN conjunct1] unfolding d0 u1 by simp
  have fl: "\<exists>xs. Float64 [0 :: real] = Float64 xs" by blast
  have "nd_get (nd_set (Float64 [0]) 0
         (nd_get (Float64 [0]) 0 + rng_uniform (- 1) 1 (example_draws 0))) 0
      = nd_get (Float64 [0]) 0 + rng_uniform (- 1) 1 (example_draws 0)"
    by (rule s1 [THEN conjunct2, THEN conjunct2, THEN conjunct2, THEN conjunct1, THEN mp, OF fl])
  then have a': "nd_get (nd_set (Float64 [0]) 0
         (nd_get (Float64 [0]) 0 + rng_uniform (- 1) 1 (example_draws 0))) 0 = 1 / 2"
    unfolding d0 by simp
  have ur: "0 \<le> example_draws 0 \<and> example_draws 0 < 1 \<and> (0::real) < 1"
    by (simp add: example_draws_def)
  have r: "- 1 \<le> rng_uniform (- 1) 1 (example_draws 0) \<and> rng_uniform (- 1) 1 (example_draws 0) < 1"
    by (rule s1 [THEN conjunct2, THEN conjunct2, THEN conjunct2, THEN conjunct2, THEN conjunct2,
          THEN mp, OF ur])
  \<comment> \<open>a rejected step on a float state: the quotient is 8/13, the variate 3/4\<close>
  have p2: "0 < nd_length (Float64 [- 1]) \<and> cauchy_density (Float64 [- 1]) = Fin 2 \<and> (2::real) \<noteq> 0
      \<and> cauchy_density (nd_set (Float64 [- 1]) 0
            (nd_get (Float64 [- 1]) 0 + rng_uniform (- 1) 1 (example_draws 1))) = Fin (16 / 13)"
    unfolding d1 by (simp add: cauchy_density_def power2_eq_square)
  note s2 = gibbs_step_by_dtype [where j = 0 and x = "Float64 [- 1]" and target_pdf = cauchy_density
      and a = 2 and b = "16 / 13" and step_size = 1 and draws = example_draws and pos = 1,
      THEN conjunct1, THEN mp, OF p2, unfolded Let_def]
  have b: "gibbs_coord example_draws 1 cauchy_density 0 (Float64 [- 1], 1) = (Float64 [- 1], 3)"
    using s2 [THEN conjunct1] unfolding d1 u2 by simp
  \<comment> \<open>a step on an integer state: the proposal \<open>0 + 1/2\<close> is stored as \<open>0\<close>\<close>
  have t: "trunc_real (nd_get (Int64 [0]) 0 + rng_uniform (- 1) 1 (example_draws 0)) = 0"
    unfolding d0 by (simp add: trunc_real_def)
  have s0: "nd_set (Int64 [0]) 0 (nd_get (Int64 [0]) 0 + rng_uniform (- 1) 1 (example_draws 0))
      = Int64 [0]"
    unfolding d0 by code_simp
  have p3: "0 < nd_length (Int64 [0]) \<and> cauchy_density (Int64 [0]) = Fin 4 \<and> (4::real) \<noteq> 0
      \<and> cauchy_density (nd_set (Int64 [0]) 0
            (nd_get (Int64 [0]) 0 + rng_uniform (- 1) 1 (example_draws 0))) = Fin 4"
    unfolding s0 by (simp add: cauchy_density_def)
  have r3: "(\<exists>ws. Int64 [0] = Int64 ws)
      \<and> - (2 ^ 63) \<le> trunc_real (nd_get (Int64 [0]) 0 + rng_uniform (- 1) 1 (example_draws 0))
      \<and> trunc_real (nd_get (Int64 [0]) 0 + rng_uniform (- 1) 1 (example_draws 0)) < 2 ^ 63"
    unfolding t by simp
  note s3 = gibbs_step_by_dtype [where j = 0 and x = "Int64 [0]" and target_pdf = cauchy_density
      and a = 4 and b = 4 and step_size = 1 and draws = example_draws and pos = 0,
      THEN conjunct1, THEN mp, OF p3, unfolded Let_def]
  have c: "gibbs_coord example_draws 1 cauchy_density 0 (Int64 [0], 0) = (Int64 [0], 2)"
    using s3 [THEN conjunct1] unfolding s0 by simp
  have "nd_get (nd_set (Int64 [0]) 0
         (nd_get (Int64 [0]) 0 + rng_uniform (- 1) 1 (example_draws 0))) 0
      = real_of_int (trunc_real (nd_get (Int64 [0]) 0 + rng_uniform (- 1) 1 (example_draws 0)))"
    by (rule s3 [THEN conjunct2, THEN conjunct2, THEN conjunct2, THEN conjunct2, THEN conjunct1,
          THEN mp, OF r3])
  then have d: "nd_get (nd_set (Int64 [0]) 0
         (nd_get (Int64 [0]) 0 + rng_uniform (- 1) 1 (example_draws 0))) 0 = 0"
    unfolding t by simp
  have e: "gibbs_raw example_draws (Float64 [0]) 3 1 cauchy_density
       = [Float64 [1 / 2], Float64 [1], Float64 [3 / 2]]"
    by code_simp
  have f: "gibbs_raw example_draws (Int64 [0]) 3 1 cauchy_density
       = [Int64 [0], Int64 [0], Int64 [0]]"
    by code_simp
  show ?thesis by (intro conjI a a' r [THEN conjunct1] r [THEN conjunct2] b c d e f)
qed

section \<open>Plain Monte Carlo integrator\<close>















section \<open>Blocking estimate at one block length\<close>

lemma rows_of_map: "rows_of n L (map f xs) = map (map f) (rows_of n L xs)"
  by (induction n arbitrary: xs) (simp_all add: take_map drop_map)

lemma take_by_index: "L \<le> length xs \<Longrightarrow> take L xs = map (\<lambda>j. xs ! j) [0..<L]"
  by (intro nth_equalityI) simp_all

lemma rows_of_by_index:
  "n * L \<le> length xs \<Longrightarrow>
   rows_of n L (take (n * L) xs) = map (\<lambda>i. map (\<lambda>j. xs ! (i * L + j)) [0..<L]) [0..<n]"
proof (induction n arbitrary: xs)
  case 0
  then show ?case by simp
next
  case (Suc n)
  have L: "L \<le> length xs" using Suc.prems by simp
  have rest: "n * L \<le> length (drop L xs)" using Suc.prems by simp
  have up: "[0..<Suc n] = 0 # map Suc [0..<n]"
    by (metis map_Suc_upt upt_conv_Cons zero_less_Suc)
  have hd_row: "take L (take (Suc n * L) xs) = map (\<lambda>j. xs ! (0 * L + j)) [0..<L]"
    using take_by_index [OF L] by (simp add: min_def)
  have "drop L (take (Suc n * L) xs) = take (n * L) (drop L xs)"
    by (simp add: drop_take)
  then have tl_rows: "rows_of n L (drop L (take (Suc n * L) xs))
      = map (\<lambda>i. map (\<lambda>j. drop L xs ! (i * L + j)) [0..<L]) [0..<n]"
    using Suc.IH [OF rest] by simp
  have shift: "\<And>i j. drop L xs ! (i * L + j) = xs ! (Suc i * L + j)"
    using L by (simp add: add.assoc)
  have "rows_of (Suc n) L (take (Suc n * L) xs)
      = take L (take (Suc n * L) xs) # rows_of n L (drop L (take (Suc n * L) xs))"
    by simp
  also have "\<dots> = map (\<lambda>j. xs ! (0 * L + j)) [0..<L]
      # map (\<lambda>i. map (\<lambda>j. xs ! (Suc i * L + j)) [0..<L]) [0..<n]"
    unfolding hd_row tl_rows shift ..
  also have "\<dots> = map (\<lambda>i. map (\<lambda>j. xs ! (i * L + j)) [0..<L]) [0..<Suc n]"
    unfolding up by (simp add: comp_def)
  finally show ?case .
qed

lemma blocks_are_block_means:
  assumes "0 < L"
  shows "map np_mean (rows_of (length (map Fin xs) div L) L
            (take (length (map Fin xs) div L * L) (map Fin xs)))
    = map Fin (block_means xs L)"
proof -
  let ?n = "length xs div L"
  have fit: "?n * L \<le> length xs" by simp
  have rows: "rows_of ?n L (take (?n * L) (map Fin xs))
      = map (map Fin) (map (\<lambda>i. map (\<lambda>j. xs ! (i * L + j)) [0..<L]) [0..<?n])"
    unfolding take_map rows_of_map rows_of_by_index [OF fit] ..
  have mean: "\<And>i. np_mean (map Fin (map (\<lambda>j. xs ! (i * L + j)) [0..<L]))
      = Fin ((\<Sum>j\<leftarrow>[0..<L]. xs ! (i * L + j)) / real L)"
  proof -
    fix i
    have ne: "map (\<lambda>j. xs ! (i * L + j)) [0..<L] \<noteq> []" using assms by simp
    show "np_mean (map Fin (map (\<lambda>j. xs ! (i * L + j)) [0..<L]))
      = Fin ((\<Sum>j\<leftarrow>[0..<L]. xs ! (i * L + j)) / real L)"
      unfolding np_mean_Fin [OF ne] by simp
  qed
  have "map np_mean (rows_of ?n L (take (?n * L) (map Fin xs)))
      = map (\<lambda>i. np_mean (map Fin (map (\<lambda>j. xs ! (i * L + j)) [0..<L]))) [0..<?n]"
    unfolding rows by (simp add: comp_def)
  also have "\<dots> = map Fin (block_means xs L)"
    unfolding mean block_means_def by (simp add: comp_def)
  finally show ?thesis by simp
qed

lemma block_estimate_Fin:
  assumes "0 < L" and "2 \<le> length xs div L"
  shows "block_estimate (map Fin xs) L
    = Fin (sample_variance (block_means xs L) / real (length xs div L))"
proof -
  let ?n = "length xs div L"
  have len: "length (block_means xs L) = ?n" by (simp add: block_means_def)
  have dd: "1 < length (block_means xs L)" using assms(2) len by simp
  have den: "real (length (block_means xs L) - 1) = real (length (block_means xs L)) - 1"
    using dd by simp
  have nz: "real ?n \<noteq> 0" using assms(2) by simp
  have "block_estimate (map Fin xs) L
      = fdiv (np_var 1 (map Fin (block_means xs L))) (Fin (real ?n))"
    unfolding block_estimate_def Let_def blocks_are_block_means [OF assms(1)] by simp
  also have "\<dots> = Fin (sample_variance (block_means xs L) / real ?n)"
    unfolding np_var_Fin [OF dd] den sample_variance_def using nz by simp
  finally show ?thesis .
qed

lemma block_error_Fin:
  assumes "0 < L" and "2 \<le> length xs div L"
  shows "block_error (map Fin xs) L
    = Fin (sample_variance (block_means xs L) / real (length xs div L)
           * sqrt (2 / (real (length xs div L) - 1)))"
proof -
  let ?n = "length xs div L"
  have pos: "0 < real ?n - 1" using assms(2) by simp
  then have nz: "real ?n - 1 \<noteq> 0" and nn: "\<not> 2 / (real ?n - 1) < 0" by simp_all
  have "fsqrt (fdiv (Fin 2) (Fin (real ?n - 1))) = Fin (sqrt (2 / (real ?n - 1)))"
    using nz nn by simp
  then show ?thesis
    unfolding block_error_def block_estimate_Fin [OF assms] by simp
qed

lemma block_single_NaN:
  assumes "0 < L" and "length xs div L = 1"
  shows "block_estimate (map Fin xs) L = NaN \<and> block_error (map Fin xs) L = NaN"
proof -
  have len: "length (block_means xs L) = 1" using assms(2) by (simp add: block_means_def)
  then obtain m where m: "block_means xs L = [m]" by (cases "block_means xs L") auto
  have "np_var 1 (map Fin (block_means xs L)) = NaN"
    unfolding m by (simp add: np_var_def np_mean_def np_sum_def fsub_def)
  then have e: "block_estimate (map Fin xs) L = NaN"
    unfolding block_estimate_def Let_def blocks_are_block_means [OF assms(1)] by simp
  then show ?thesis unfolding block_error_def by simp
qed

text \<open>
  Claim C1. For a series of finite values, \<open>min_blocks \<ge> 1\<close> and a block length
  \<open>L = 2 ^ k\<close> with \<open>N div L \<ge> min_blocks\<close>, \<open>blocking_variance\<close> returns a curve whose
  entry \<open>k\<close> is for the block length \<open>L\<close>. With \<open>n = N div L\<close> blocks, the variance
  estimate there is \<open>s2 / n\<close>, where \<open>s2\<close> is the unbiased sample variance (denominator
  \<open>n - 1\<close>) of the means of the \<open>n\<close> consecutive blocks of length \<open>L\<close> that the first
  \<open>n * L\<close> elements form, and the uncertainty is the estimate times
  \<open>sqrt (2 / (n - 1))\<close>. For a single block the denominator \<open>n - 1\<close> is zero and both
  numbers are NaN.
\<close>

theorem blocking_estimate_at_scale:
  assumes "1 \<le> min_blocks" and "min_blocks \<le> int (length xs div 2 ^ k)"
  shows "\<exists>bin_sizes var_mean err_var.
      blocking_variance (map Fin xs) min_blocks = Inr (bin_sizes, var_mean, err_var)
      \<and> k < length bin_sizes \<and> k < length var_mean \<and> k < length err_var
      \<and> bin_sizes ! k = 2 ^ k
      \<and> (let L = 2 ^ k;
              n_blocks = length xs div L;
              s2 = sample_variance (block_means xs L)
          in (2 \<le> n_blocks \<longrightarrow>
                var_mean ! k = Fin (s2 / real n_blocks)
                \<and> err_var ! k = Fin (s2 / real n_blocks * sqrt (2 / (real n_blocks - 1))))
             \<and> (n_blocks = 1 \<longrightarrow> var_mean ! k = NaN \<and> err_var ! k = NaN))"
proof -
  let ?series = "map Fin xs"
  let ?m = "nat min_blocks"
  let ?mp = "log2_floor (length ?series div ?m)"
  let ?bs = "map (\<lambda>k. (2::nat) ^ k) [0..<?mp + 1]"
  let ?L = "(2::nat) ^ k"
  have Lpos: "0 < ?L" by simp
  have m: "0 < ?m" using assms(1) by simp
  have mk: "?m \<le> length xs div ?L" using assms by linarith
  have "length xs div ?L \<le> length xs" by (rule div_le_dividend)
  then have "int (length xs div ?L) \<le> int (length xs)" by (rule iffD2 [OF of_nat_le_iff])
  then have "min_blocks \<le> int (length xs)" using assms(2) by (rule order_trans [rotated])
  then have mN: "min_blocks \<le> int (length ?series)" by simp
  have kmp: "k \<le> ?mp" using blocks_le_pow [OF m mk] by simp
  then have kin: "k < length [0..<?mp + 1]" by simp
  have nthk: "[0..<?mp + 1] ! k = k" using kmp by (simp add: nth_append del: upt_Suc)
  have val: "blocking_variance ?series min_blocks
      = Inr (?bs, map (block_estimate ?series) ?bs, map (block_error ?series) ?bs)"
    by (rule blocking_variance_value [OF assms(1) mN])
  have kb: "k < length ?bs" using kin by simp
  have bk: "?bs ! k = ?L" using kin nthk by (simp del: upt_Suc)
  have vk: "map (block_estimate ?series) ?bs ! k = block_estimate ?series ?L"
    using kb bk by (simp del: upt_Suc)
  have ek: "map (block_error ?series) ?bs ! k = block_error ?series ?L"
    using kb bk by (simp del: upt_Suc)
  have many: "2 \<le> length xs div ?L \<longrightarrow>
        block_estimate ?series ?L
          = Fin (sample_variance (block_means xs ?L) / real (length xs div ?L))
      \<and> block_error ?series ?L
          = Fin (sample_variance (block_means xs ?L) / real (length xs div ?L)
                 * sqrt (2 / (real (length xs div ?L) - 1)))"
    using block_estimate_Fin [OF Lpos] block_error_Fin [OF Lpos] by blast
  have single: "length xs div ?L = 1 \<longrightarrow>
      block_estimate ?series ?L = NaN \<and> block_error ?series ?L = NaN"
    using block_single_NaN [OF Lpos] by blast
  have lens: "k < length (map (block_estimate ?series) ?bs)"
    "k < length (map (block_error ?series) ?bs)"
    using kb by simp_all
  show ?thesis
    unfolding Let_def
    apply (rule exI [of _ ?bs])
    apply (rule exI [of _ "map (block_estimate ?series) ?bs"])
    apply (rule exI [of _ "map (block_error ?series) ?bs"])
    unfolding vk ek
    using val kb lens bk many single by blast
qed

theorem blocking_estimate_at_scale_witness:
  "(\<exists>bin_sizes var_mean err_var.
      blocking_variance (map Fin [1, 3, 2, 6, 4, 8]) 3 = Inr (bin_sizes, var_mean, err_var)
      \<and> bin_sizes ! 1 = 2 \<and> var_mean ! 1 = Fin (4 / 3) \<and> err_var ! 1 = Fin (4 / 3))
   \<and> (\<exists>bin_sizes var_mean err_var.
      blocking_variance (map Fin [1, 3]) 1 = Inr (bin_sizes, var_mean, err_var)
      \<and> bin_sizes ! 1 = 2 \<and> var_mean ! 1 = NaN \<and> err_var ! 1 = NaN)"
proof -
  have h1: "(1::int) \<le> 3" by simp
  have h2: "(3::int) \<le> int (length [1, 3, 2, 6, 4, 8 :: real] div 2 ^ 1)" by simp
  have n: "length [1, 3, 2, 6, 4, 8 :: real] div 2 ^ 1 = 3" by simp
  have bm: "block_means [1, 3, 2, 6, 4, 8] (2 ^ 1) = [2, 4, 6]"
    by (simp add: block_means_def upt_rec)
  have sv: "sample_variance [2, 4, 6] = 4"
    by (simp add: sample_variance_def power2_eq_square)
  obtain bin_sizes var_mean err_var where
    r: "blocking_variance (map Fin [1, 3, 2, 6, 4, 8]) 3 = Inr (bin_sizes, var_mean, err_var)"
    and b: "bin_sizes ! 1 = 2 ^ 1"
    and v: "2 \<le> length [1, 3, 2, 6, 4, 8 :: real] div 2 ^ 1 \<longrightarrow>
        var_mean ! 1 = Fin (sample_variance (block_means [1, 3, 2, 6, 4, 8] (2 ^ 1))
                            / real (length [1, 3, 2, 6, 4, 8 :: real] div 2 ^ 1))
      \<and> err_var ! 1 = Fin (sample_variance (block_means [1, 3, 2, 6, 4, 8] (2 ^ 1))
                            / real (length [1, 3, 2, 6, 4, 8 :: real] div 2 ^ 1)
                            * sqrt (2 / (real (length [1, 3, 2, 6, 4, 8 :: real] div 2 ^ 1) - 1)))"
    using blocking_estimate_at_scale [OF h1 h2] unfolding Let_def by blast
  have v1: "var_mean ! 1 = Fin (4 / 3)" using v unfolding bm sv n by simp
  have e1: "err_var ! 1 = Fin (4 / 3)" using v unfolding bm sv n by simp
  have b1: "bin_sizes ! 1 = 2" using b by simp
  have many: "\<exists>bin_sizes var_mean err_var.
      blocking_variance (map Fin [1, 3, 2, 6, 4, 8]) 3 = Inr (bin_sizes, var_mean, err_var)
      \<and> bin_sizes ! 1 = 2 \<and> var_mean ! 1 = Fin (4 / 3) \<and> err_var ! 1 = Fin (4 / 3)"
    using r b1 v1 e1 by blast
  have g1: "(1::int) \<le> 1" by simp
  have g2: "(1::int) \<le> int (length [1, 3 :: real] div 2 ^ 1)" by simp
  have n': "length [1, 3 :: real] div 2 ^ 1 = 1" by simp
  obtain bin_sizes' var_mean' err_var' where
    r': "blocking_variance (map Fin [1, 3]) 1 = Inr (bin_sizes', var_mean', err_var')"
    and b': "bin_sizes' ! 1 = 2 ^ 1"
    and v': "length [1, 3 :: real] div 2 ^ 1 = 1 \<longrightarrow> var_mean' ! 1 = NaN \<and> err_var' ! 1 = NaN"
    using blocking_estimate_at_scale [OF g1 g2] unfolding Let_def by blast
  have "var_mean' ! 1 = NaN" "err_var' ! 1 = NaN" using v' n' by blast+
  moreover have "bin_sizes' ! 1 = 2" using b' by simp
  ultimately have single: "\<exists>bin_sizes var_mean err_var.
      blocking_variance (map Fin [1, 3]) 1 = Inr (bin_sizes, var_mean, err_var)
      \<and> bin_sizes ! 1 = 2 \<and> var_mean ! 1 = NaN \<and> err_var ! 1 = NaN"
    using r' by blast
  show ?thesis using many single by blast
qed

end
